theory Spec2Isabelle
  imports Complex_Main "HOL-Library.Word"
begin

section \<open>geospade.operation: numbers, errors and arrays\<close>

text \<open>
  The module works on Python floats. They are embedded as exact reals: every result
  below is a statement about the arithmetic the code writes down, not about IEEE-754
  rounding. The exception are the two maps between pixels and coordinates, which are
  given with binary64 rounding as well. Python integers are \<open>int\<close>, the cells of the \<open>np.uint8\<close> raster are
  \<open>8 word\<close>. An exception is a value \<open>Inl e\<close> of a sum type; a \<open>while\<close> loop that
  does not stop is the value \<open>None\<close>.
\<close>

datatype error = ValueError | ZeroDivisionError | IndexError | Warning

text \<open>Python 3 \<open>round(x)\<close> with one argument: the nearest integer, a tie going to
  the even neighbour.\<close>

definition py_round :: "real \<Rightarrow> int" where
  "py_round x =
     (let f = \<lfloor>x\<rfloor>; d = x - of_int f
      in if d < 1 / 2 then f else if 1 / 2 < d then f + 1
         else if even f then f else f + 1)"

text \<open>Python \<open>a / b\<close> on numbers: \<open>ZeroDivisionError\<close> when \<open>b\<close> is zero.\<close>

definition py_div :: "real \<Rightarrow> real \<Rightarrow> error + real" where
  "py_div a b = (if b = 0 then Inl ZeroDivisionError else Inr (a / b))"

section \<open>Geotransform: \<open>construct_geotransform\<close>, \<open>xy2ij\<close>, \<open>ij2xy\<close>\<close>

type_synonym geotransform = "real \<times> real \<times> real \<times> real \<times> real \<times> real"

text \<open>\<open>math.radians\<close>.\<close>

definition radians :: "real \<Rightarrow> real" where
  "radians d = d * pi / 180"

text \<open>
  \<open>alpha = round(math.radians(rot)) if deg else rot\<close>: the conversion to radians is
  the argument of \<open>round\<close>.
\<close>

definition construct_geotransform ::
    "real \<times> real \<Rightarrow> real \<Rightarrow> real \<times> real \<Rightarrow> bool \<Rightarrow> geotransform" where
  "construct_geotransform origin rot px deg =
     (let (gt0, gt3) = origin;
          alpha = (if deg then of_int (py_round (radians rot)) else rot);
          (x_ps, y_ps) = px
      in (gt0, cos alpha * x_ps, - sin alpha * x_ps, gt3, sin alpha * y_ps, cos alpha * y_ps))"

text \<open>
  The reading of the specification: the angle in degrees is rounded to an integer
  number of degrees, and that is converted to radians.
\<close>

definition construct_geotransform_spec ::
    "real \<times> real \<Rightarrow> real \<Rightarrow> real \<times> real \<Rightarrow> bool \<Rightarrow> geotransform" where
  "construct_geotransform_spec origin rot px deg =
     (let (gt0, gt3) = origin;
          alpha = (if deg then radians (of_int (py_round rot)) else rot);
          (x_ps, y_ps) = px
      in (gt0, cos alpha * x_ps, - sin alpha * x_ps, gt3, sin alpha * y_ps, cos alpha * y_ps))"

fun xy2ij :: "real \<Rightarrow> real \<Rightarrow> geotransform \<Rightarrow> error + int \<times> int" where
  "xy2ij x y (gt0, gt1, gt2, gt3, gt4, gt5) =
     (case py_div (- 1 * (gt2 * gt3 - gt0 * gt5 + gt5 * x - gt2 * y))
                  (gt2 * gt4 - gt1 * gt5) of
        Inl e \<Rightarrow> Inl e
      | Inr a \<Rightarrow>
          (case py_div (- 1 * (- 1 * gt1 * gt3 + gt0 * gt4 - gt4 * x + gt1 * y))
                       (gt2 * gt4 - gt1 * gt5) of
             Inl e \<Rightarrow> Inl e
           | Inr b \<Rightarrow> Inr (py_round a, py_round b)))"

definition px_shift_map :: "string \<rightharpoonup> real \<times> real" where
  "px_shift_map =
     map_of [(''ul'', (0, 0)), (''ur'', (1, 0)), (''lr'', (1, 1)), (''ll'', (0, 1)),
             (''c'', (1 / 2, 1 / 2))]"

text \<open>
  An origin that is no key of the table raises \<open>Warning\<close>; the assignment of the
  upper-left shift after the \<open>raise\<close> is never reached.
\<close>

fun ij2xy :: "int \<Rightarrow> int \<Rightarrow> geotransform \<Rightarrow> string \<Rightarrow> error + real \<times> real" where
  "ij2xy i j (gt0, gt1, gt2, gt3, gt4, gt5) origin =
     (case px_shift_map origin of
        None \<Rightarrow> Inl Warning
      | Some px_shift \<Rightarrow>
          (let i' = of_int i + fst px_shift;
               j' = of_int j + snd px_shift;
               x = gt0 + i' * gt1 + j' * gt2;
               y = gt3 + i' * gt4 + j' * gt5
           in Inr (x, y)))"

section \<open>The two maps in binary64 arithmetic\<close>

text \<open>
  Whether \<open>xy2ij\<close> undoes \<open>ij2xy\<close> exactly depends on the rounding of the floating
  point operations, so the two functions are given a second time with every operation
  rounded. \<open>double_round\<close> rounds a real to the nearest binary64 number, a tie going
  to the even significand: \<open>e\<close> is the binary exponent of \<open>x\<close> and \<open>u\<close> the distance
  between neighbouring doubles at \<open>x\<close>. The range of the exponent is not limited:
  overflow, subnormal numbers, signed zeros and NaN are left out.
\<close>

definition double_round :: "real \<Rightarrow> real" where
  "double_round x =
     (if x = 0 then 0
      else (let e = \<lfloor>log 2 \<bar>x\<bar>\<rfloor>; u = 2 powr of_int (e - 52)
            in of_int (py_round (x / u)) * u))"

text \<open>A real that is a double.\<close>

definition representable :: "real \<Rightarrow> bool" where
  "representable v = (double_round v = v)"













section \<open>Rasterisation: \<open>rasterise_polygon\<close>\<close>

definition EPS :: real where
  "EPS = 1 / 1000000"

type_synonym raster = "8 word list list"

text \<open>Python \<open>min\<close> and \<open>max\<close> of a non-empty sequence, scanned from the left.\<close>

fun min_seq :: "real list \<Rightarrow> real" where
  "min_seq [] = 0"
| "min_seq (x # xs) = fold min xs x"

fun max_seq :: "real list \<Rightarrow> real" where
  "max_seq [] = 0"
| "max_seq (x # xs) = fold max xs x"

text \<open>\<open>np.zeros((n_rows, n_cols), np.uint8)\<close>: a negative dimension is a
  \<open>ValueError\<close>, a zero one gives an empty array.\<close>

definition np_zeros :: "int \<Rightarrow> int \<Rightarrow> error + raster" where
  "np_zeros n_rows n_cols =
     (if n_rows < 0 \<or> n_cols < 0 then Inl ValueError
      else Inr (replicate (nat n_rows) (replicate (nat n_cols) 0)))"

text \<open>An integer index along an axis of length \<open>n\<close>: numpy counts a negative index
  from the end and raises \<open>IndexError\<close> outside \<open>-n \<le> i < n\<close>.\<close>

definition np_index :: "int \<Rightarrow> nat \<Rightarrow> error + nat" where
  "np_index i n =
     (if 0 \<le> i \<and> i < int n then Inr (nat i)
      else if - int n \<le> i \<and> i < 0 then Inr (nat (i + int n))
      else Inl IndexError)"

text \<open>\<open>raster[i, j] = 1\<close>.\<close>

definition set_cell :: "raster \<Rightarrow> int \<Rightarrow> int \<Rightarrow> error + raster" where
  "set_cell raster i j =
     (case np_index i (length raster) of
        Inl e \<Rightarrow> Inl e
      | Inr a \<Rightarrow>
          (case np_index j (length (raster ! a)) of
             Inl e \<Rightarrow> Inl e
           | Inr b \<Rightarrow> Inr (raster[a := (raster ! a)[b := 1]])))"

text \<open>The body of the \<open>while\<close> loop up to the assignment of the cell: the \<open>x\<close> of
  the edge at height \<open>y\<close>, the two indexes, the flag. The slope \<open>k\<close> is \<open>None\<close> for a
  vertical edge.\<close>

definition flag_cell ::
    "real \<Rightarrow> int \<Rightarrow> real \<Rightarrow> real \<Rightarrow> real option \<Rightarrow> real \<Rightarrow> real \<Rightarrow> raster \<Rightarrow> real
      \<Rightarrow> error + raster" where
  "flag_cell sres buffer x_min y_max k y_start x_start raster y =
     (case (case k of
              Some k' \<Rightarrow>
                (case py_div (y - y_start) k' of
                   Inl e \<Rightarrow> Inl e
                 | Inr q \<Rightarrow> Inr (q + x_start))
            | None \<Rightarrow> Inr x_start) of
        Inl e \<Rightarrow> Inl e
      | Inr x \<Rightarrow>
          (case py_div \<bar>y - y_max\<bar> sres of
             Inl e \<Rightarrow> Inl e
           | Inr qi \<Rightarrow>
               (case py_div \<bar>x - x_min\<bar> sres of
                  Inl e \<Rightarrow> Inl e
                | Inr qj \<Rightarrow> set_cell raster (py_round qi + buffer) (py_round qj + buffer))))"

text \<open>\<open>while abs(y - y_end - sres) >= EPS\<close>: flag the cell, step \<open>y\<close> by \<open>sres\<close>.
  \<open>None\<close> stands for a loop that never leaves.\<close>

partial_function (option) walk ::
    "real \<Rightarrow> int \<Rightarrow> real \<Rightarrow> real \<Rightarrow> real option \<Rightarrow> real \<Rightarrow> real \<Rightarrow> real \<Rightarrow> raster \<Rightarrow> real
      \<Rightarrow> (error + raster) option" where
  "walk sres buffer x_min y_max k y_start y_end x_start raster y =
     (if EPS \<le> \<bar>y - y_end - sres\<bar> then
        (case flag_cell sres buffer x_min y_max k y_start x_start raster y of
           Inl e \<Rightarrow> Some (Inl e)
         | Inr raster' \<Rightarrow>
             walk sres buffer x_min y_max k y_start y_end x_start raster' (y + sres))
      else Some (Inr raster))"

declare walk.simps [code]

text \<open>One pass of the \<open>for\<close> loop over the edges, for the edge from \<open>(x_1, y_1)\<close> to
  \<open>(x_2, y_2)\<close>: a horizontal edge is skipped, any other is walked upwards from its
  lower end.\<close>

definition draw_edge ::
    "real \<Rightarrow> int \<Rightarrow> real \<Rightarrow> real \<Rightarrow> real \<times> real \<Rightarrow> real \<times> real \<Rightarrow> raster
      \<Rightarrow> (error + raster) option" where
  "draw_edge sres buffer x_min y_max p_1 p_2 raster =
     (let (x_1, y_1) = p_1; (x_2, y_2) = p_2;
          x_diff = x_2 - x_1; y_diff = y_2 - y_1
      in if y_diff = 0 then Some (Inr raster)
         else
           (let k = (if x_diff \<noteq> 0 then Some (y_diff / x_diff) else None)
            in if y_1 < y_2
               then walk sres buffer x_min y_max k y_1 y_2 x_1 raster y_1
               else walk sres buffer x_min y_max k y_2 y_1 x_2 raster y_2))"

text \<open>\<open>for idx in range(1, len(xs))\<close>, reading \<open>xs[idx - 1]\<close>, \<open>xs[idx]\<close>,
  \<open>ys[idx - 1]\<close> and \<open>ys[idx]\<close>; the list of indexes is the third argument from the
  end.\<close>

fun contour ::
    "real \<Rightarrow> int \<Rightarrow> real \<Rightarrow> real \<Rightarrow> real list \<Rightarrow> real list \<Rightarrow> nat list \<Rightarrow> raster
      \<Rightarrow> (error + raster) option" where
  "contour sres buffer x_min y_max xs ys [] raster = Some (Inr raster)"
| "contour sres buffer x_min y_max xs ys (idx # idxs) raster =
     (case draw_edge sres buffer x_min y_max (xs ! (idx - 1), ys ! (idx - 1))
             (xs ! idx, ys ! idx) raster of
        None \<Rightarrow> None
      | Some (Inl e) \<Rightarrow> Some (Inl e)
      | Some (Inr raster') \<Rightarrow> contour sres buffer x_min y_max xs ys idxs raster')"

text \<open>Lines 38 to 87: the coordinates are unzipped (\<open>ValueError\<close> on an empty list
  of points), the extent and the grid are computed and the contour is drawn. The
  argument \<open>buffer\<close> is the one already made non-negative.\<close>

definition contour_pass :: "(real \<times> real) list \<Rightarrow> real \<Rightarrow> int \<Rightarrow> (error + raster) option" where
  "contour_pass points sres buffer =
     (if points = [] then Some (Inl ValueError)
      else
        (let xs = map fst points; ys = map snd points;
             x_min = min_seq xs; x_max = max_seq xs;
             y_min = min_seq ys; y_max = max_seq ys
         in case py_div (y_max - y_min) sres of
              Inl e \<Rightarrow> Some (Inl e)
            | Inr q_rows \<Rightarrow>
                (case py_div (x_max - x_min) sres of
                   Inl e \<Rightarrow> Some (Inl e)
                 | Inr q_cols \<Rightarrow>
                     (let n_rows = py_round q_rows + 1 + 2 * buffer;
                          n_cols = py_round q_cols + 1 + 2 * buffer
                      in case np_zeros n_rows n_cols of
                           Inl e \<Rightarrow> Some (Inl e)
                         | Inr raster \<Rightarrow>
                             contour sres buffer x_min y_max xs ys [1..<length xs] raster))))"

text \<open>The inner loop of the fill, over the cells of one row from the left.
  \<open>is_inner\<close> starts as \<open>False\<close> and is replaced by \<open>~is_inner\<close>, the bitwise
  complement of an integer (\<open>~False = -1\<close>, \<open>~(-1) = 0\<close>); it counts as true when
  it is not zero.\<close>

fun fill_row :: "8 word list \<Rightarrow> int \<Rightarrow> 8 word list" where
  "fill_row [] is_inner = []"
| "fill_row (c # cs) is_inner =
     (let is_inner' = (if c \<noteq> 0 then - is_inner - 1 else is_inner)
      in (if is_inner' \<noteq> 0 then 1 else c) # fill_row cs is_inner')"

text \<open>The outer loop of the fill: a row whose cells sum to less than 2 is left as
  it is. The sum of the \<open>uint8\<close> cells is taken without wrap-around (the running
  sum of the built-in \<open>sum\<close> starts from the Python integer 0).\<close>

definition fill_pass :: "raster \<Rightarrow> raster" where
  "fill_pass raster =
     map (\<lambda>row. if sum_list (map unat row) < 2 then row else fill_row row 0) raster"

text \<open>
  Modelled from the spec: \<open>cv2.erode\<close> is a function of OpenCV, not of this
  repository. One erosion with the full 3 by 3 kernel: a cell becomes the minimum of
  itself and its neighbours, so it stays 1 only if all of them are 1. Neighbours
  outside the image do not count. (\<open>a - 1\<close> on \<open>nat\<close> stops at 0, the first row.)
\<close>

definition erode_cell :: "raster \<Rightarrow> nat \<Rightarrow> nat \<Rightarrow> 8 word" where
  "erode_cell r a b =
     fold min
       (concat (map (\<lambda>a'. map (\<lambda>b'. r ! a' ! b') [b - 1 ..< min (b + 2) (length (r ! a'))])
                    [a - 1 ..< min (a + 2) (length r)]))
       (r ! a ! b)"

definition erode_step :: "raster \<Rightarrow> raster" where
  "erode_step r = map (\<lambda>a. map (\<lambda>b. erode_cell r a b) [0 ..< length (r ! a)]) [0 ..< length r]"

definition erode :: "raster \<Rightarrow> nat \<Rightarrow> raster" where
  "erode r iterations = (erode_step ^^ iterations) r"

text \<open>\<open>raster[buffer:-buffer, buffer:-buffer]\<close> for a positive \<open>buffer\<close>.\<close>

definition crop :: "nat \<Rightarrow> raster \<Rightarrow> raster" where
  "crop b r = map (\<lambda>row. drop b (take (length row - b) row)) (drop b (take (length r - b) r))"

definition rasterise_polygon ::
    "(real \<times> real) list \<Rightarrow> real \<Rightarrow> int \<Rightarrow> (error + raster) option" where
  "rasterise_polygon points sres buffer0 =
     (let buffer = \<bar>buffer0\<bar>
      in case contour_pass points sres buffer of
           None \<Rightarrow> None
         | Some (Inl e) \<Rightarrow> Some (Inl e)
         | Some (Inr flagged) \<Rightarrow>
             (let raster = fill_pass flagged
              in if buffer \<noteq> 0
                 then Some (Inr (crop (nat buffer) (erode raster (nat buffer))))
                 else Some (Inr raster)))"

section \<open>Notions used to state the properties\<close>

text \<open>A raster has shape \<open>(n, m)\<close>: \<open>n\<close> rows of \<open>m\<close> cells each.\<close>

definition shape_is :: "raster \<Rightarrow> int \<Rightarrow> int \<Rightarrow> bool" where
  "shape_is r n m = (int (length r) = n \<and> list_all (\<lambda>row. int (length row) = m) r)"

text \<open>Every cell is 0 or 1.\<close>

definition binary :: "raster \<Rightarrow> bool" where
  "binary r = list_all (list_all (\<lambda>c. c = 0 \<or> c = 1)) r"


section \<open>Rounding\<close>

lemma py_round_of_int: "py_round (of_int i) = i"
  by (simp add: py_round_def)

lemma py_round_near: "\<bar>of_int (py_round x) - x\<bar> \<le> 1 / 2"
  unfolding py_round_def Let_def by (auto simp: abs_le_iff)

lemma py_round_numeral:
  "py_round (numeral n) = numeral n" "py_round (- numeral n) = - numeral n"
  "py_round 0 = 0" "py_round 1 = 1" "py_round (- 1) = - 1"
  using py_round_of_int [of "numeral n"] py_round_of_int [of "- numeral n"]
    py_round_of_int [of 0] py_round_of_int [of 1] py_round_of_int [of "- 1"]
  by simp_all

lemma py_round_minus: "py_round (- x) = - py_round x"
proof (cases "x = of_int \<lfloor>x\<rfloor>")
  case True
  then obtain n where "x = of_int n" by metis
  then show ?thesis using py_round_of_int [of n] py_round_of_int [of "- n"] by simp
next
  case False
  then have fl: "\<lfloor>- x\<rfloor> = - \<lfloor>x\<rfloor> - 1"
    by (metis ceiling_altdef ceiling_def add_diff_cancel_right' diff_minus_eq_add minus_diff_eq
        minus_minus of_int_floor_cancel uminus_add_conv_diff)
  define f where "f = \<lfloor>x\<rfloor>"
  define d where "d = x - of_int f"
  have d': "- x - of_int (- f - 1) = 1 - d" by (simp add: d_def)
  have "even (- f - 1) \<longleftrightarrow> odd f" by simp
  then show ?thesis
    unfolding py_round_def Let_def fl f_def [symmetric] d' d_def [symmetric]
    by auto
qed



lemma double_round_minus: "double_round (- x) = - double_round x"
  by (simp add: double_round_def Let_def py_round_minus)




lemma representable_minus: "representable v \<Longrightarrow> representable (- v)"
  by (simp add: representable_def double_round_minus)




section \<open>The geotransform\<close>

lemma py_round_radians_1: "py_round (radians 1) = 0"
proof -
  have "0 < pi / 180" "pi / 180 < 1 / 2" using pi_less_4 pi_gt_zero by auto
  then have "\<lfloor>pi / 180\<rfloor> = 0" by (simp add: floor_eq_iff)
  then show ?thesis using \<open>pi / 180 < 1 / 2\<close> by (simp add: py_round_def radians_def)
qed

text \<open>
  C4: the angle is not rounded to a whole number of degrees. At one degree
  \<open>construct_geotransform\<close> converts to \<open>pi / 180\<close> radians first and rounds the
  radians to 0: the result has no rotation at all. It differs from what rounding the
  degrees first gives, and from what the same function returns for the same angle
  passed in radians with \<open>deg = False\<close>.
\<close>

theorem construct_geotransform_one_degree:
  "construct_geotransform (0, 0) 1 (1, 1) True = (0, 1, 0, 0, 0, 1)
   \<and> construct_geotransform (0, 0) 1 (1, 1) True \<noteq> construct_geotransform_spec (0, 0) 1 (1, 1) True
   \<and> construct_geotransform (0, 0) 1 (1, 1) True
       \<noteq> construct_geotransform (0, 0) (radians 1) (1, 1) False"
proof -
  have pos: "sin (pi / 180) \<noteq> 0"
  proof -
    have "0 < sin (pi / 180)" using pi_gt_zero by (intro sin_gt_zero) auto
    then show ?thesis by simp
  qed
  have r1: "py_round 1 = 1" using py_round_of_int [of 1] by simp
  have spec:
    "construct_geotransform_spec (0, 0) 1 (1, 1) True
       = (0, cos (pi / 180), - sin (pi / 180), 0, sin (pi / 180), cos (pi / 180))"
    by (simp add: construct_geotransform_spec_def Let_def radians_def r1)
  have sib:
    "construct_geotransform (0, 0) (radians 1) (1, 1) False
       = (0, cos (pi / 180), - sin (pi / 180), 0, sin (pi / 180), cos (pi / 180))"
    by (simp add: construct_geotransform_def Let_def radians_def)
  have code: "construct_geotransform (0, 0) 1 (1, 1) True = (0, 1, 0, 0, 0, 1)"
    by (simp add: construct_geotransform_def Let_def py_round_radians_1)
  show ?thesis unfolding spec sib code using pos by simp
qed

text \<open>In general: with \<open>deg = True\<close> the six parameters are those of an integer \<open>n\<close>
  of radians, at most one half away from \<open>rot * pi / 180\<close>; with \<open>deg = False\<close> the
  angle is used as it is.\<close>

lemma construct_geotransform_rounds_radians:
  "(\<exists>n::int. \<bar>of_int n - rot * pi / 180\<bar> \<le> 1 / 2
       \<and> construct_geotransform (x_o, y_o) rot (x_ps, y_ps) True
           = (x_o, cos (of_int n) * x_ps, - sin (of_int n) * x_ps,
              y_o, sin (of_int n) * y_ps, cos (of_int n) * y_ps))
   \<and> construct_geotransform (x_o, y_o) rot (x_ps, y_ps) False
       = (x_o, cos rot * x_ps, - sin rot * x_ps, y_o, sin rot * y_ps, cos rot * y_ps)"
proof -
  have "\<bar>of_int (py_round (radians rot)) - rot * pi / 180\<bar> \<le> 1 / 2"
    using py_round_near [of "radians rot"] by (simp add: radians_def)
  then show ?thesis
    by (auto simp: construct_geotransform_def Let_def intro!: exI [of _ "py_round (radians rot)"])
qed

text \<open>The geotransform of the rotation angle 0, in degrees or in radians, has no
  rotation terms.\<close>

lemma construct_geotransform_zero:
  "construct_geotransform (x_o, y_o) 0 (x_ps, y_ps) deg = (x_o, x_ps, 0, y_o, 0, y_ps)"
  by (simp add: construct_geotransform_def Let_def radians_def py_round_def)

text \<open>Over the reals, with no rounding, \<open>xy2ij\<close> undoes \<open>ij2xy\<close> for every geotransform
  without rotation whose pixel sizes are not zero.\<close>

lemma xy2ij_ij2xy_ul:
  assumes "gt1 \<noteq> 0" and "gt5 \<noteq> 0"
  shows "\<exists>x y. ij2xy i j (gt0, gt1, 0, gt3, 0, gt5) ''ul'' = Inr (x, y)
           \<and> xy2ij x y (gt0, gt1, 0, gt3, 0, gt5) = Inr (i, j)"
proof -
  have a: "- 1 * (0 * gt3 - gt0 * gt5 + gt5 * (gt0 + of_int i * gt1 + of_int j * 0)
                   - 0 * (gt3 + of_int i * 0 + of_int j * gt5)) / (0 * 0 - gt1 * gt5)
           = of_int i"
    using assms by (simp add: field_simps)
  have b: "- 1 * (- 1 * gt1 * gt3 + gt0 * 0 - 0 * (gt0 + of_int i * gt1 + of_int j * 0)
                   + gt1 * (gt3 + of_int i * 0 + of_int j * gt5)) / (0 * 0 - gt1 * gt5)
           = of_int j"
    using assms by (simp add: field_simps)
  have ij: "ij2xy i j (gt0, gt1, 0, gt3, 0, gt5) ''ul''
              = Inr (gt0 + of_int i * gt1 + of_int j * 0, gt3 + of_int i * 0 + of_int j * gt5)"
    by (simp add: px_shift_map_def)
  have "xy2ij (gt0 + of_int i * gt1 + of_int j * 0) (gt3 + of_int i * 0 + of_int j * gt5)
          (gt0, gt1, 0, gt3, 0, gt5) = Inr (i, j)"
    unfolding xy2ij.simps py_div_def a b using assms by (simp add: py_round_of_int)
  with ij show ?thesis by blast
qed




lemma px_shift_map_None:
  "origin \<notin> {''ul'', ''ur'', ''lr'', ''ll'', ''c''} \<Longrightarrow> px_shift_map origin = None"
  by (simp add: px_shift_map_def)

text \<open>
  C8: for an origin outside \<open>"ul"\<close>, \<open>"ur"\<close>, \<open>"lr"\<close>, \<open>"ll"\<close>, \<open>"c"\<close>, \<open>ij2xy\<close> raises
  (the exception is Python's \<open>Warning\<close>, which plays the part of the specification's
  \<open>UnknownAnchor\<close>) and returns no coordinate; its result is not the one of the
  upper-left origin.
\<close>

theorem ij2xy_unknown_origin:
  assumes "origin \<notin> {''ul'', ''ur'', ''lr'', ''ll'', ''c''}"
  shows "ij2xy i j gt origin = Inl Warning \<and> ij2xy i j gt origin \<noteq> ij2xy i j gt ''ul''"
proof -
  obtain gt0 gt1 gt2 gt3 gt4 gt5 where gt: "gt = (gt0, gt1, gt2, gt3, gt4, gt5)"
    by (cases gt) auto
  have "ij2xy i j gt origin = Inl Warning"
    using assms by (simp add: gt px_shift_map_None)
  moreover have "\<exists>p. ij2xy i j gt ''ul'' = Inr p"
    by (simp add: gt px_shift_map_def Let_def)
  ultimately show ?thesis by auto
qed

theorem ij2xy_unknown_origin_witness:
  "ij2xy 1 1 (100, 10, 0, 200, 0, 10) ''center'' = Inl Warning
   \<and> ij2xy 1 1 (100, 10, 0, 200, 0, 10) ''center'' \<noteq> ij2xy 1 1 (100, 10, 0, 200, 0, 10) ''ul''"
proof -
  have h: "''center'' \<notin> {''ul'', ''ur'', ''lr'', ''ll'', ''c''}" by simp
  show ?thesis by (rule ij2xy_unknown_origin [OF h])
qed

section \<open>The rasteriser\<close>

subsection \<open>The walk along an edge leaves its loop\<close>



lemma np_index_bound: "np_index i n = Inr a \<Longrightarrow> a < n \<and> \<bar>i\<bar> \<le> int n"
  by (auto simp: np_index_def split: if_splits)

lemma set_cell_length: "set_cell raster i j = Inr raster' \<Longrightarrow> length raster' = length raster"
  by (auto simp: set_cell_def split: sum.splits)

lemma set_cell_row_bound: "set_cell raster i j = Inr raster' \<Longrightarrow> \<bar>i\<bar> \<le> int (length raster)"
  by (auto simp: set_cell_def split: sum.splits dest: np_index_bound)

lemma py_round_abs_bound: "\<bar>x\<bar> \<le> \<bar>of_int (py_round x)\<bar> + 1 / 2"
  using py_round_near [of x] by linarith

lemma flag_cell_sres_0: "\<exists>e. flag_cell 0 buffer x_min y_max k y_start x_start raster y = Inl e"
  by (auto simp: flag_cell_def py_div_def split: option.splits sum.splits)

lemma flag_cell_in_grid:
  assumes "flag_cell sres buffer x_min y_max k y_start x_start raster y = Inr raster'"
    and "sres \<noteq> 0"
  shows "length raster' = length raster"
    and "\<bar>y - y_max\<bar> / \<bar>sres\<bar> < real (length raster) + \<bar>of_int buffer\<bar> + 1"
proof -
  from assms obtain j where
    sc: "set_cell raster (py_round (\<bar>y - y_max\<bar> / sres) + buffer) j = Inr raster'"
    by (auto simp: flag_cell_def py_div_def split: option.splits sum.splits if_splits)
  show "length raster' = length raster" using sc by (rule set_cell_length)
  let ?q = "\<bar>y - y_max\<bar> / sres"
  have "\<bar>py_round ?q + buffer\<bar> \<le> int (length raster)" using sc by (rule set_cell_row_bound)
  then have "\<bar>py_round ?q\<bar> \<le> int (length raster) + \<bar>buffer\<bar>" by linarith
  then have "\<bar>real_of_int (py_round ?q)\<bar> \<le> real (length raster) + \<bar>of_int buffer\<bar>"
    by (metis (mono_tags) of_int_abs of_int_add of_int_le_iff of_int_of_nat_eq)
  moreover have "\<bar>?q\<bar> \<le> \<bar>of_int (py_round ?q)\<bar> + 1 / 2" by (rule py_round_abs_bound)
  moreover have "\<bar>?q\<bar> = \<bar>y - y_max\<bar> / \<bar>sres\<bar>" by simp
  ultimately show "\<bar>y - y_max\<bar> / \<bar>sres\<bar> < real (length raster) + \<bar>of_int buffer\<bar> + 1"
    by linarith
qed

lemma walk_halts_aux:
  assumes "sres \<noteq> 0"
  shows "nat \<lceil>real (length raster) + \<bar>of_int buffer\<bar> + 1 + (y_max - y) / sres\<rceil> = m
    \<Longrightarrow> \<exists>res. walk sres buffer x_min y_max k y_start y_end x_start raster y = Some res"
proof (induction m arbitrary: raster y rule: less_induct)
  case (less m)
  show ?case
  proof (cases "EPS \<le> \<bar>y - y_end - sres\<bar>")
    case False
    then show ?thesis by (subst walk.simps) simp
  next
    case True
    show ?thesis
    proof (cases "flag_cell sres buffer x_min y_max k y_start x_start raster y")
      case (Inl e)
      with True show ?thesis by (subst walk.simps) simp
    next
      case (Inr raster')
      note grid = flag_cell_in_grid [OF Inr assms]
      let ?N = "real (length raster) + \<bar>of_int buffer\<bar> + 1"
      have "- \<bar>y - y_max\<bar> / \<bar>sres\<bar> \<le> (y_max - y) / sres"
      proof -
        have "\<bar>(y_max - y) / sres\<bar> = \<bar>y - y_max\<bar> / \<bar>sres\<bar>" by (simp add: abs_minus_commute)
        then show ?thesis by linarith
      qed
      with grid(2) have pos: "0 < ?N + (y_max - y) / sres" by linarith
      have step: "(y_max - (y + sres)) / sres = (y_max - y) / sres - 1"
        using assms by (simp add: field_simps)
      define c where "c = \<lceil>?N + (y_max - y) / sres\<rceil>"
      have c': "\<lceil>?N + (y_max - (y + sres)) / sres\<rceil> = c - 1"
        unfolding step c_def by (simp add: algebra_simps) linarith
      have "0 < c" unfolding c_def using pos by linarith
      then have "nat (c - 1) < nat c" by linarith
      moreover have "m = nat c" unfolding c_def using less.prems by simp
      ultimately have
        "nat \<lceil>real (length raster') + \<bar>of_int buffer\<bar> + 1 + (y_max - (y + sres)) / sres\<rceil> < m"
        unfolding grid(1) c' by simp
      from less.IH [OF this refl] obtain res where
        "walk sres buffer x_min y_max k y_start y_end x_start raster' (y + sres) = Some res" ..
      with True Inr show ?thesis by (subst walk.simps) simp
    qed
  qed
qed

lemma walk_halts: "\<exists>res. walk sres buffer x_min y_max k y_start y_end x_start raster y = Some res"
proof (cases "sres = 0")
  case True
  obtain e where "flag_cell 0 buffer x_min y_max k y_start x_start raster y = Inl e"
    using flag_cell_sres_0 by blast
  with True show ?thesis by (subst walk.simps) simp
next
  case False
  then show ?thesis using walk_halts_aux by blast
qed

subsection \<open>What every flagged cell preserves\<close>

lemma flag_cell_set_cell:
  "flag_cell sres buffer x_min y_max k y_start x_start raster y = Inr raster'
    \<Longrightarrow> \<exists>i j. set_cell raster i j = Inr raster'"
  unfolding flag_cell_def
  by (simp split: option.splits sum.splits) blast+

lemma walk_invariant_aux:
  assumes step: "\<And>r i j r'. P r \<Longrightarrow> set_cell r i j = Inr r' \<Longrightarrow> P r'"
    and run: "walk sres buffer x_min y_max k y_start y_end x_start raster y = Some res"
  shows "res = Inr raster' \<longrightarrow> P raster \<longrightarrow> P raster'"
proof (rule walk.raw_induct [where P = "\<lambda>sres buffer x_min y_max k y_start y_end x_start raster y res.
    res = Inr raster' \<longrightarrow> P raster \<longrightarrow> P raster'", OF _ run])
  fix walk sres buffer x_min y_max k y_start y_end x_start raster y res
  assume IH: "\<And>sres buffer x_min y_max k y_start y_end x_start raster y res.
      walk sres buffer x_min y_max k y_start y_end x_start raster y = Some res
      \<Longrightarrow> res = Inr raster' \<longrightarrow> P raster \<longrightarrow> P raster'"
    and eq: "(if EPS \<le> \<bar>y - y_end - sres\<bar>
      then case flag_cell sres buffer x_min y_max k y_start x_start raster y of
           Inl e \<Rightarrow> Some (Inl e)
           | Inr raster' \<Rightarrow> walk sres buffer x_min y_max k y_start y_end x_start raster' (y + sres)
      else Some (Inr raster)) = Some res"
  show "res = Inr raster' \<longrightarrow> P raster \<longrightarrow> P raster'"
  proof (intro impI)
    assume res: "res = Inr raster'" and init: "P raster"
    show "P raster'"
    proof (cases "EPS \<le> \<bar>y - y_end - sres\<bar>")
      case False
      with eq res init show ?thesis by simp
    next
      case True
      show ?thesis
      proof (cases "flag_cell sres buffer x_min y_max k y_start x_start raster y")
        case (Inl e)
        with True eq res show ?thesis by simp
      next
        case (Inr r1)
        from flag_cell_set_cell [OF Inr] obtain i j where "set_cell raster i j = Inr r1" by blast
        from step [OF init this] have "P r1" .
        moreover have "walk sres buffer x_min y_max k y_start y_end x_start r1 (y + sres) = Some res"
          using eq True Inr by simp
        ultimately show ?thesis using IH res by blast
      qed
    qed
  qed
qed


lemma walk_invariant:
  assumes "walk sres buffer x_min y_max k y_start y_end x_start raster y = Some (Inr raster')"
    and "P raster"
    and "\<And>r i j r'. P r \<Longrightarrow> set_cell r i j = Inr r' \<Longrightarrow> P r'"
  shows "P raster'"
  using walk_invariant_aux [of P sres buffer x_min y_max k y_start y_end x_start raster y
      "Inr raster'" raster'] assms by blast

lemma draw_edge_cases:
  assumes "draw_edge sres buffer x_min y_max p_1 p_2 raster = res"
  shows "res = Some (Inr raster)
    \<or> (\<exists>k y_start y_end x_start y.
          res = walk sres buffer x_min y_max k y_start y_end x_start raster y)"
proof -
  obtain x_1 y_1 x_2 y_2 where p: "p_1 = (x_1, y_1)" "p_2 = (x_2, y_2)"
    by (cases p_1, cases p_2) auto
  show ?thesis
  proof (cases "y_2 - y_1 = 0")
    case True
    with assms show ?thesis by (simp add: draw_edge_def p)
  next
    case False
    show ?thesis
    proof (cases "y_1 < y_2")
      case True
      with False assms have
        "res = walk sres buffer x_min y_max
           (if x_2 - x_1 \<noteq> 0 then Some ((y_2 - y_1) / (x_2 - x_1)) else None) y_1 y_2 x_1 raster y_1"
        by (simp add: draw_edge_def p Let_def)
      then show ?thesis by blast
    next
      case lt: False
      with False assms have
        "res = walk sres buffer x_min y_max
           (if x_2 - x_1 \<noteq> 0 then Some ((y_2 - y_1) / (x_2 - x_1)) else None) y_2 y_1 x_2 raster y_2"
        by (simp add: draw_edge_def p Let_def)
      then show ?thesis by blast
    qed
  qed
qed

lemma draw_edge_invariant:
  assumes run: "draw_edge sres buffer x_min y_max p_1 p_2 raster = Some (Inr raster')"
    and init: "P raster"
    and step: "\<And>r i j r'. P r \<Longrightarrow> set_cell r i j = Inr r' \<Longrightarrow> P r'"
  shows "P raster'"
proof -
  from draw_edge_cases [OF run] show ?thesis
  proof
    assume "Some (Inr raster') = Some (Inr raster)"
    with init show ?thesis by simp
  next
    assume "\<exists>k y_start y_end x_start y.
          Some (Inr raster') = walk sres buffer x_min y_max k y_start y_end x_start raster y"
    then obtain k y_start y_end x_start y where
      "walk sres buffer x_min y_max k y_start y_end x_start raster y = Some (Inr raster')"
      by metis
    then show ?thesis using init by (rule walk_invariant) (blast intro: step)
  qed
qed

lemma contour_Cons_Inr:
  assumes "contour sres buffer x_min y_max xs ys (idx # idxs) raster = Some (Inr raster')"
  shows "\<exists>r1. draw_edge sres buffer x_min y_max (xs ! (idx - 1), ys ! (idx - 1))
                 (xs ! idx, ys ! idx) raster = Some (Inr r1)
              \<and> contour sres buffer x_min y_max xs ys idxs r1 = Some (Inr raster')"
  using assms by (simp split: option.splits sum.splits)

lemma contour_invariant:
  assumes "contour sres buffer x_min y_max xs ys idxs raster = Some (Inr raster')"
    and "P raster"
    and step: "\<And>r i j r'. P r \<Longrightarrow> set_cell r i j = Inr r' \<Longrightarrow> P r'"
  shows "P raster'"
  using assms(1,2)
proof (induction idxs arbitrary: raster)
  case Nil
  then show ?case by simp
next
  case (Cons idx idxs)
  from contour_Cons_Inr [OF Cons.prems(1)] obtain r1 where
    e: "draw_edge sres buffer x_min y_max (xs ! (idx - 1), ys ! (idx - 1)) (xs ! idx, ys ! idx) raster
          = Some (Inr r1)"
    and c: "contour sres buffer x_min y_max xs ys idxs r1 = Some (Inr raster')"
    by blast
  have "P r1"
    using e Cons.prems(2) by (rule draw_edge_invariant) (blast intro: step)
  with c Cons.IH show ?case by blast
qed

subsection \<open>Every loop of the rasteriser ends\<close>


lemma draw_edge_halts: "\<exists>res. draw_edge sres buffer x_min y_max p_1 p_2 raster = Some res"
  using draw_edge_cases [OF refl, of sres buffer x_min y_max p_1 p_2 raster] walk_halts
  by metis

lemma contour_halts: "\<exists>res. contour sres buffer x_min y_max xs ys idxs raster = Some res"
proof (induction idxs arbitrary: raster)
  case Nil
  show ?case by simp
next
  case (Cons idx idxs)
  obtain res where e:
    "draw_edge sres buffer x_min y_max (xs ! (idx - 1), ys ! (idx - 1)) (xs ! idx, ys ! idx) raster
       = Some res"
    using draw_edge_halts by blast
  show ?case
  proof (cases res)
    case (Inl err)
    with e show ?thesis by simp
  next
    case (Inr r1)
    with e Cons.IH [of r1] show ?thesis by simp
  qed
qed

lemma contour_pass_nonempty:
  assumes "points \<noteq> []" and "sres \<noteq> 0"
  shows "contour_pass points sres buffer =
     (if py_round ((max_seq (map snd points) - min_seq (map snd points)) / sres) + 1 + 2 * buffer < 0
         \<or> py_round ((max_seq (map fst points) - min_seq (map fst points)) / sres) + 1 + 2 * buffer < 0
      then Some (Inl ValueError)
      else contour sres buffer (min_seq (map fst points)) (max_seq (map snd points))
             (map fst points) (map snd points) [1..<length points]
             (replicate
                (nat (py_round ((max_seq (map snd points) - min_seq (map snd points)) / sres)
                      + 1 + 2 * buffer))
                (replicate
                   (nat (py_round ((max_seq (map fst points) - min_seq (map fst points)) / sres)
                         + 1 + 2 * buffer)) 0)))"
  using assms by (simp add: contour_pass_def Let_def py_div_def np_zeros_def)

lemma contour_pass_empty: "contour_pass [] sres buffer = Some (Inl ValueError)"
  by (simp add: contour_pass_def)

lemma contour_pass_sres_0:
  "points \<noteq> [] \<Longrightarrow> contour_pass points 0 buffer = Some (Inl ZeroDivisionError)"
  by (simp add: contour_pass_def Let_def py_div_def)

lemma contour_pass_halts: "\<exists>res. contour_pass points sres buffer = Some res"
proof (cases "points = [] \<or> sres = 0")
  case True
  then show ?thesis using contour_pass_empty contour_pass_sres_0 by (cases "points = []") auto
next
  case False
  then show ?thesis using contour_pass_nonempty [of points sres buffer] contour_halts by auto
qed

lemma rasterise_polygon_cases:
  "contour_pass points sres \<bar>buffer\<bar> = Some (Inl e)
     \<Longrightarrow> rasterise_polygon points sres buffer = Some (Inl e)"
  "contour_pass points sres \<bar>buffer\<bar> = Some (Inr flagged)
     \<Longrightarrow> rasterise_polygon points sres buffer =
         Some (Inr (if buffer = 0 then fill_pass flagged
                    else crop (nat \<bar>buffer\<bar>) (erode (fill_pass flagged) (nat \<bar>buffer\<bar>))))"
  by (simp_all add: rasterise_polygon_def Let_def)

text \<open>
  Over the reals the walk along an edge always leaves its loop, and so does every
  other loop of \<open>rasterise_polygon\<close>: the call ends, with a raster or with an
  exception. The walk steps \<open>y\<close> by \<open>sres\<close>; either the test
  \<open>abs(y - y_end - sres) < EPS\<close> ends it, or the row index leaves the grid after
  finitely many steps and \<open>IndexError\<close> ends it. (In binary64 arithmetic \<open>y + sres\<close>
  can be \<open>y\<close> again; such a walk is not covered here.)
\<close>

lemma rasterise_polygon_halts:
  "(\<exists>res. walk sres buffer x_min y_max k y_start y_end x_start raster y = Some res)
   \<and> (\<exists>res. rasterise_polygon points sres buffer = Some res)"
proof
  show "\<exists>res. walk sres buffer x_min y_max k y_start y_end x_start raster y = Some res"
    by (rule walk_halts)
  obtain res where r: "contour_pass points sres \<bar>buffer\<bar> = Some res"
    using contour_pass_halts by blast
  show "\<exists>res. rasterise_polygon points sres buffer = Some res"
  proof (cases res)
    case (Inl e)
    with r rasterise_polygon_cases(1) show ?thesis by blast
  next
    case (Inr flagged)
    with r rasterise_polygon_cases(2) show ?thesis by blast
  qed
qed

subsection \<open>Concrete polygons\<close>

lemmas eval_defs = rasterise_polygon_def contour_pass_def Let_def py_div_def np_zeros_def
      draw_edge_def walk.simps flag_cell_def EPS_def set_cell_def np_index_def
      fill_pass_def numeral_eq_Suc nth_Cons' py_round_numeral

lemma contour_pass_square:
  "contour_pass [(0, 0), (2, 0), (2, 2), (0, 2), (0, 0)] 1 0
     = Some (Inr [[1, 0, 1], [1, 0, 1], [1, 0, 1]])"
  by (simp add: eval_defs upt_rec [of 1])

lemma py_round_half: "py_round (1 / 2) = 0" "py_round (3 / 2) = 2" "py_round (5 / 2) = 2"
   "py_round (7 / 2) = 4"
  by (simp_all add: py_round_def Let_def)

text \<open>
  C3: the walk does not always end by its test, and \<open>rasterise_polygon\<close> does not
  return a raster for every valid polygon. For the triangle \<open>(0,0)\<close>, \<open>(0,2.5)\<close>,
  \<open>(1,0)\<close> at resolution 1, the walk along the edge of height 2.5 passes \<open>y = 3\<close> and
  \<open>y = 4\<close> without meeting \<open>y_end + sres = 3.5\<close>, flags cells on its way, and leaves
  the grid of 3 rows at \<open>y = 6\<close>: the call ends with \<open>IndexError\<close>.
\<close>

theorem rasterise_polygon_overshoot:
  "rasterise_polygon [(0, 0), (0, 5 / 2), (1, 0), (0, 0)] 1 0 = Some (Inl IndexError)"
  by (simp add: eval_defs upt_rec [of 1] py_round_half)

text \<open>
  C1: the closed square with corners \<open>(0,0)\<close>, \<open>(2,0)\<close>, \<open>(2,2)\<close>, \<open>(0,2)\<close>, rasterised with
  resolution 1 and buffer 0, gives the 3 by 3 raster in which every cell is 1.
\<close>

theorem rasterise_polygon_square:
  "rasterise_polygon [(0, 0), (2, 0), (2, 2), (0, 2), (0, 0)] 1 0
     = Some (Inr [[1, 1, 1], [1, 1, 1], [1, 1, 1]])"
  by (simp add: eval_defs upt_rec [of 1])


subsection \<open>Shape and cell values\<close>

lemma min_seq_Min: "xs \<noteq> [] \<Longrightarrow> min_seq xs = Min (set xs)"
  by (cases xs) (simp, simp only: min_seq.simps Min.set_eq_fold)

lemma max_seq_Max: "xs \<noteq> [] \<Longrightarrow> max_seq xs = Max (set xs)"
  by (cases xs) (simp, simp only: max_seq.simps Max.set_eq_fold)

lemma set_cell_update:
  assumes "set_cell r i j = Inr r'"
  shows "\<exists>a b. a < length r \<and> b < length (r ! a) \<and> r' = r[a := (r ! a)[b := 1]]"
proof -
  from assms obtain a where a: "np_index i (length r) = Inr a"
    by (cases "np_index i (length r)") (simp_all add: set_cell_def)
  with assms obtain b where b: "np_index j (length (r ! a)) = Inr b"
    by (cases "np_index j (length (r ! a))") (simp_all add: set_cell_def)
  from assms a b have "r' = r[a := (r ! a)[b := 1]]" by (simp add: set_cell_def)
  with np_index_bound [OF a] np_index_bound [OF b] show ?thesis by blast
qed

lemma list_all_update:
  "list_all Q xs \<Longrightarrow> Q x \<Longrightarrow> list_all Q (xs[a := x])"
  by (auto simp: list_all_iff dest!: set_update_subset_insert [THEN subsetD])

lemma set_cell_shape: "shape_is r n m \<Longrightarrow> set_cell r i j = Inr r' \<Longrightarrow> shape_is r' n m"
proof -
  assume s: "shape_is r n m" and c: "set_cell r i j = Inr r'"
  from set_cell_update [OF c] obtain a b where
    a: "a < length r" and r': "r' = r[a := (r ! a)[b := 1]]" by blast
  from s a have "int (length (r ! a)) = m" by (simp add: shape_is_def list_all_length)
  then have "int (length ((r ! a)[b := 1])) = m" by simp
  with s show ?thesis unfolding r' shape_is_def by (simp add: list_all_update)
qed

lemma set_cell_binary: "binary r \<Longrightarrow> set_cell r i j = Inr r' \<Longrightarrow> binary r'"
proof -
  assume s: "binary r" and c: "set_cell r i j = Inr r'"
  from set_cell_update [OF c] obtain a b where
    a: "a < length r" and r': "r' = r[a := (r ! a)[b := 1]]" by blast
  from s a have "list_all (\<lambda>c. c = 0 \<or> c = 1) (r ! a)" by (simp add: binary_def list_all_length)
  then have "list_all (\<lambda>c. c = 0 \<or> c = (1::8 word)) ((r ! a)[b := 1])"
    by (rule list_all_update) simp
  with s show ?thesis unfolding r' binary_def by (simp add: list_all_update)
qed

lemma shape_is_zeros: "0 \<le> n \<Longrightarrow> 0 \<le> m \<Longrightarrow> shape_is (replicate (nat n) (replicate (nat m) 0)) n m"
  by (simp add: shape_is_def list_all_iff)

lemma binary_zeros: "binary (replicate n (replicate m 0))"
  by (simp add: binary_def list_all_iff)

lemma contour_pass_Inr:
  assumes "contour_pass points sres buffer = Some (Inr flagged)"
  shows "\<exists>zeros. contour sres buffer (min_seq (map fst points)) (max_seq (map snd points))
             (map fst points) (map snd points) [1..<length points] zeros = Some (Inr flagged)
           \<and> binary zeros
           \<and> shape_is zeros
               (py_round ((max_seq (map snd points) - min_seq (map snd points)) / sres) + 1 + 2 * buffer)
               (py_round ((max_seq (map fst points) - min_seq (map fst points)) / sres) + 1 + 2 * buffer)"
proof -
  have ne: "points \<noteq> []" using assms contour_pass_empty by (cases points) auto
  have s0: "sres \<noteq> 0" using assms contour_pass_sres_0 [OF ne] by (cases "sres = 0") auto
  let ?R = "py_round ((max_seq (map snd points) - min_seq (map snd points)) / sres) + 1 + 2 * buffer"
  let ?C = "py_round ((max_seq (map fst points) - min_seq (map fst points)) / sres) + 1 + 2 * buffer"
  have nn: "\<not> (?R < 0 \<or> ?C < 0)"
    using assms unfolding contour_pass_nonempty [OF ne s0] by (auto split: if_splits)
  then have "contour sres buffer (min_seq (map fst points)) (max_seq (map snd points))
             (map fst points) (map snd points) [1..<length points]
             (replicate (nat ?R) (replicate (nat ?C) 0)) = Some (Inr flagged)"
    using assms unfolding contour_pass_nonempty [OF ne s0] by (simp split: if_splits)
  moreover have "shape_is (replicate (nat ?R) (replicate (nat ?C) 0)) ?R ?C"
    using nn by (intro shape_is_zeros) auto
  ultimately show ?thesis using binary_zeros by blast
qed

lemma contour_pass_shape:
  assumes "contour_pass points sres buffer = Some (Inr flagged)"
  shows "shape_is flagged
     (py_round ((max_seq (map snd points) - min_seq (map snd points)) / sres) + 1 + 2 * buffer)
     (py_round ((max_seq (map fst points) - min_seq (map fst points)) / sres) + 1 + 2 * buffer)"
proof -
  from contour_pass_Inr [OF assms] obtain zeros where
    c: "contour sres buffer (min_seq (map fst points)) (max_seq (map snd points))
             (map fst points) (map snd points) [1..<length points] zeros = Some (Inr flagged)"
    and z: "shape_is zeros
               (py_round ((max_seq (map snd points) - min_seq (map snd points)) / sres) + 1 + 2 * buffer)
               (py_round ((max_seq (map fst points) - min_seq (map fst points)) / sres) + 1 + 2 * buffer)"
    by blast
  from c z show ?thesis by (rule contour_invariant) (rule set_cell_shape)
qed

lemma contour_pass_binary:
  assumes "contour_pass points sres buffer = Some (Inr flagged)"
  shows "binary flagged"
proof -
  from contour_pass_Inr [OF assms] obtain zeros where
    c: "contour sres buffer (min_seq (map fst points)) (max_seq (map snd points))
             (map fst points) (map snd points) [1..<length points] zeros = Some (Inr flagged)"
    and z: "binary zeros"
    by blast
  from c z show ?thesis by (rule contour_invariant) (rule set_cell_binary)
qed

lemma nbhd_cells:
  assumes "c \<in> set (concat (map (\<lambda>a'. map (\<lambda>b'. r ! a' ! b') [lo2 ..< min h2 (length (r ! a'))])
                    [lo ..< min h (length r)]))"
  shows "\<exists>a' b'. a' < length r \<and> b' < length (r ! a') \<and> c = r ! a' ! b'"
proof -
  from assms obtain a' where a': "a' \<in> set [lo ..< min h (length r)]"
    and c: "c \<in> set (map (\<lambda>b'. r ! a' ! b') [lo2 ..< min h2 (length (r ! a'))])"
    by (auto simp only: set_concat set_map UN_iff image_iff)
  from c obtain b' where b': "b' \<in> set [lo2 ..< min h2 (length (r ! a'))]" and cv: "c = r ! a' ! b'"
    by (auto simp only: set_map image_iff)
  from a' have "a' < length r" by simp
  moreover from b' have "b' < length (r ! a')" by simp
  ultimately show ?thesis using cv by blast
qed


lemma fold_min_in: "fold min xs (x::8 word) \<in> insert x (set xs)"
proof (induction xs arbitrary: x)
  case Nil
  show ?case by simp
next
  case (Cons a xs)
  have "min a x = a \<or> min a x = x" by (simp add: min_def)
  with Cons [of "min a x"] show ?case by auto
qed

lemma binary_nth:
  "binary r \<Longrightarrow> a < length r \<Longrightarrow> b < length (r ! a) \<Longrightarrow> r ! a ! b = 0 \<or> r ! a ! b = 1"
  unfolding binary_def list_all_length by blast

lemma binary_nthI:
  assumes "\<And>a b. a < length r \<Longrightarrow> b < length (r ! a) \<Longrightarrow> r ! a ! b = 0 \<or> r ! a ! b = 1"
  shows "binary r"
  unfolding binary_def list_all_length using assms by blast

lemma erode_cell_binary:
  assumes "binary r" and "a < length r" and "b < length (r ! a)"
  shows "erode_cell r a b = 0 \<or> erode_cell r a b = 1"
proof -
  have "erode_cell r a b \<in> insert (r ! a ! b)
          (set (concat (map (\<lambda>a'. map (\<lambda>b'. r ! a' ! b') [b - 1 ..< min (b + 2) (length (r ! a'))])
                    [a - 1 ..< min (a + 2) (length r)])))"
    unfolding erode_cell_def by (rule fold_min_in)
  then show ?thesis
  proof
    assume "erode_cell r a b = r ! a ! b"
    with binary_nth [OF assms] show ?thesis by simp
  next
    assume "erode_cell r a b \<in> set (concat (map (\<lambda>a'. map (\<lambda>b'. r ! a' ! b')
              [b - 1 ..< min (b + 2) (length (r ! a'))]) [a - 1 ..< min (a + 2) (length r)]))"
    from nbhd_cells [OF this] obtain a' b' where
      "a' < length r" "b' < length (r ! a')" "erode_cell r a b = r ! a' ! b'" by blast
    with binary_nth [OF assms(1)] show ?thesis by metis
  qed
qed

lemma fill_row_length: "length (fill_row cs is_inner) = length cs"
  by (induction cs arbitrary: is_inner) (simp_all add: Let_def)

lemma fill_row_keeps: "j < length cs \<Longrightarrow> cs ! j = 1 \<Longrightarrow> fill_row cs is_inner ! j = 1"
proof (induction cs arbitrary: is_inner j)
  case Nil
  then show ?case by simp
next
  case (Cons c cs)
  show ?case
  proof (cases j)
    case 0
    with Cons.prems show ?thesis by (simp add: Let_def)
  next
    case (Suc j')
    with Cons.prems Cons.IH show ?thesis by (simp add: Let_def)
  qed
qed

lemma fill_row_binary:
  "list_all (\<lambda>c. c = 0 \<or> c = 1) cs \<Longrightarrow> list_all (\<lambda>c. c = 0 \<or> c = 1) (fill_row cs is_inner)"
  by (induction cs arbitrary: is_inner) (simp_all add: Let_def)

lemma fill_pass_length: "length (fill_pass r) = length r"
  by (simp add: fill_pass_def)

lemma fill_pass_nth:
  "i < length r \<Longrightarrow> fill_pass r ! i =
     (if sum_list (map unat (r ! i)) < 2 then r ! i else fill_row (r ! i) 0)"
  by (simp add: fill_pass_def)

lemma fill_pass_shape: "shape_is r n m \<Longrightarrow> shape_is (fill_pass r) n m"
  by (simp add: shape_is_def list_all_length fill_pass_length fill_pass_nth fill_row_length)

lemma fill_pass_binary: "binary r \<Longrightarrow> binary (fill_pass r)"
  by (simp add: binary_def list_all_length [of _ r] list_all_length [of _ "fill_pass r"]
      fill_pass_length fill_pass_nth fill_row_binary)

lemma erode_step_length: "length (erode_step r) = length r"
  by (simp add: erode_step_def)

lemma erode_step_row_length: "a < length r \<Longrightarrow> length (erode_step r ! a) = length (r ! a)"
  by (simp add: erode_step_def)

lemma erode_step_shape: "shape_is r n m \<Longrightarrow> shape_is (erode_step r) n m"
  by (simp add: shape_is_def list_all_length erode_step_length erode_step_row_length)

lemma erode_step_binary: "binary r \<Longrightarrow> binary (erode_step r)"
proof (rule binary_nthI)
  fix a b
  assume bin: "binary r" and a: "a < length (erode_step r)" and b: "b < length (erode_step r ! a)"
  from a have a': "a < length r" by (simp add: erode_step_length)
  with b have b': "b < length (r ! a)" by (simp add: erode_step_row_length)
  have "erode_step r ! a ! b = erode_cell r a b" using a' b' by (simp add: erode_step_def)
  with erode_cell_binary [OF bin a' b']
  show "erode_step r ! a ! b = 0 \<or> erode_step r ! a ! b = 1" by simp
qed

lemma erode_shape: "shape_is r n m \<Longrightarrow> shape_is (erode r k) n m"
  unfolding erode_def by (induction k) (simp_all add: erode_step_shape)

lemma erode_binary: "binary r \<Longrightarrow> binary (erode r k)"
  unfolding erode_def by (induction k) (simp_all add: erode_step_binary)

lemma list_all_drop_take: "list_all Q xs \<Longrightarrow> list_all Q (drop b (take k xs))"
  unfolding list_all_iff by (meson in_set_dropD in_set_takeD)

lemma in_set_mapD: "c \<in> set (map f xs) \<Longrightarrow> \<exists>x\<in>set xs. c = f x"
  by auto

lemma crop_binary: "binary r \<Longrightarrow> binary (crop b r)"
proof -
  assume bin: "binary r"
  have "\<forall>row \<in> set (crop b r). list_all (\<lambda>c. c = 0 \<or> c = 1) row"
  proof
    fix row
    assume "row \<in> set (crop b r)"
    then have "\<exists>row0 \<in> set (drop b (take (length r - b) r)).
        row = drop b (take (length row0 - b) row0)"
      unfolding crop_def by (rule in_set_mapD)
    then obtain row0 where r0: "row0 \<in> set (drop b (take (length r - b) r))"
      and row: "row = drop b (take (length row0 - b) row0)" by blast
    from r0 have "row0 \<in> set r" by (meson in_set_dropD in_set_takeD)
    with bin have "list_all (\<lambda>c. c = 0 \<or> c = 1) row0" unfolding binary_def list_all_iff by blast
    then show "list_all (\<lambda>c. c = 0 \<or> c = 1) row" unfolding row by (rule list_all_drop_take)
  qed
  then show ?thesis unfolding binary_def list_all_iff [of _ "crop b r"] .
qed

text \<open>
  C2: whenever the contour pass ends with a raster, for a buffer that is not negative,
  the raster after the fill, and the raster after the erosion that is cropped when the
  buffer is not zero, have \<open>round((y_max - y_min) / sres) + 1 + 2 * buffer\<close> rows and
  \<open>round((x_max - x_min) / sres) + 1 + 2 * buffer\<close> columns, where the extremes are
  those of the coordinates of all points; the mask returned is that raster, cropped
  when the buffer is not zero.
\<close>

theorem raster_shape:
  assumes "0 \<le> buffer"
    and "contour_pass points sres buffer = Some (Inr flagged)"
  shows "shape_is (fill_pass flagged)
           (py_round ((Max (snd ` set points) - Min (snd ` set points)) / sres) + 1 + 2 * buffer)
           (py_round ((Max (fst ` set points) - Min (fst ` set points)) / sres) + 1 + 2 * buffer)
       \<and> shape_is (erode (fill_pass flagged) (nat buffer))
           (py_round ((Max (snd ` set points) - Min (snd ` set points)) / sres) + 1 + 2 * buffer)
           (py_round ((Max (fst ` set points) - Min (fst ` set points)) / sres) + 1 + 2 * buffer)
       \<and> rasterise_polygon points sres buffer =
           Some (Inr (if buffer = 0 then fill_pass flagged
                      else crop (nat buffer) (erode (fill_pass flagged) (nat buffer))))"
proof -
  have ne: "points \<noteq> []" using assms(2) contour_pass_empty by (cases points) auto
  then have m: "max_seq (map snd points) = Max (snd ` set points)"
    "min_seq (map snd points) = Min (snd ` set points)"
    "max_seq (map fst points) = Max (fst ` set points)"
    "min_seq (map fst points) = Min (fst ` set points)"
    by (simp_all add: max_seq_Max min_seq_Min)
  have s: "shape_is flagged
           (py_round ((Max (snd ` set points) - Min (snd ` set points)) / sres) + 1 + 2 * buffer)
           (py_round ((Max (fst ` set points) - Min (fst ` set points)) / sres) + 1 + 2 * buffer)"
    using contour_pass_shape [OF assms(2)] unfolding m .
  have abs: "\<bar>buffer\<bar> = buffer" using assms(1) by simp
  have "rasterise_polygon points sres buffer =
           Some (Inr (if buffer = 0 then fill_pass flagged
                      else crop (nat buffer) (erode (fill_pass flagged) (nat buffer))))"
    using rasterise_polygon_cases(2) [of points sres buffer flagged] assms(2) unfolding abs .
  with fill_pass_shape [OF s] erode_shape [OF fill_pass_shape [OF s]] show ?thesis by blast
qed


theorem raster_shape_witness:
  "shape_is [[1, 1, 1], [1, 1, 1], [1, 1, 1]] 3 3
   \<and> rasterise_polygon [(0, 0), (2, 0), (2, 2), (0, 2), (0, 0)] 1 0
       = Some (Inr [[1, 1, 1], [1, 1, 1], [1, 1, 1]])"
proof -
  have f: "fill_pass [[1, 0, 1], [1, 0, 1], [1, 0, 1]] = [[1, 1, 1], [1, 1, 1], [1, 1, 1 :: 8 word]]"
    by (simp add: fill_pass_def)
  have mm: "Max (snd ` set [(0, 0), (2, 0), (2, 2), (0, 2), (0, 0 :: real)]) = (2 :: real)"
    "Min (snd ` set [(0, 0), (2, 0), (2, 2), (0, 2), (0, 0 :: real)]) = (0 :: real)"
    "Max (fst ` set [(0, 0), (2, 0), (2, 2), (0, 2), (0 :: real, 0 :: real)]) = (2 :: real)"
    "Min (fst ` set [(0, 0), (2, 0), (2, 2), (0, 2), (0 :: real, 0 :: real)]) = (0 :: real)"
    by simp_all
  have z: "(0::int) \<le> 0" by simp
  from raster_shape [OF z contour_pass_square] show ?thesis
    unfolding f mm by (simp add: py_round_numeral)
qed

subsection \<open>The edges of the contour\<close>




text \<open>The square without its closing point: the column of the closing edge stays 0,
  and no row has two flags for the fill.\<close>

lemma rasterise_polygon_open_square:
  "rasterise_polygon [(0, 0), (2, 0), (2, 2), (0, 2)] 1 0
     = Some (Inr [[0, 0, 1], [0, 0, 1], [0, 0, 1]])"
  by (simp add: eval_defs upt_rec [of 1])

subsection \<open>No validation of the input\<close>

text \<open>
  C7, as the specification words it, does not hold: two points, three collinear points
  and a negative resolution each give a raster, not an error.
\<close>

theorem rasterise_polygon_no_validation:
  "rasterise_polygon [(0, 0), (0, 2)] 1 0 = Some (Inr [[1], [1], [1]])
   \<and> rasterise_polygon [(0, 0), (1, 0), (2, 0)] 1 0 = Some (Inr [[0, 0, 0]])
   \<and> rasterise_polygon [(0, 0), (1, 0), (1, 1), (0, 1), (0, 0)] (- 1) 0 = Some (Inr [])"
  by (simp add: eval_defs upt_rec [of 1])

text \<open>
  C7, amended: \<open>rasterise_polygon\<close> checks neither the points nor the resolution. It
  fails on an empty list of points (\<open>ValueError\<close>, at the unpacking of the
  coordinates) and, for a list that is not empty, on the resolution 0
  (\<open>ZeroDivisionError\<close>).
\<close>

theorem rasterise_polygon_failures:
  "rasterise_polygon [] sres buffer = Some (Inl ValueError)
   \<and> (points \<noteq> [] \<longrightarrow> rasterise_polygon points 0 buffer = Some (Inl ZeroDivisionError))"
  using rasterise_polygon_cases(1) [OF contour_pass_empty]
    rasterise_polygon_cases(1) [OF contour_pass_sres_0]
  by blast

theorem rasterise_polygon_failures_witness:
  "rasterise_polygon [] 1 0 = Some (Inl ValueError)
   \<and> rasterise_polygon [(0, 0), (4, 0), (0, 4), (0, 0)] 0 0 = Some (Inl ZeroDivisionError)"
  using rasterise_polygon_failures [of 1 0 "[(0, 0), (4, 0), (0, 4), (0, 0)]"] by simp

subsection \<open>The fill\<close>

text \<open>
  C10: every cell of a raster that \<open>rasterise_polygon\<close> returns is 0 or 1. With
  buffer 0 the result is the fill of the flagged raster; the fill keeps the shape,
  every cell that the contour pass flagged 1 is still 1, and a row whose flags sum to
  less than 2 is returned as it was.
\<close>

theorem fill_only_sets:
  "(rasterise_polygon points sres buffer = Some (Inr result) \<longrightarrow> binary result)
   \<and> (contour_pass points sres 0 = Some (Inr flagged) \<longrightarrow>
        rasterise_polygon points sres 0 = Some (Inr (fill_pass flagged))
        \<and> length (fill_pass flagged) = length flagged
        \<and> (\<forall>i < length flagged.
              length (fill_pass flagged ! i) = length (flagged ! i)
              \<and> (\<forall>j < length (flagged ! i). flagged ! i ! j = 1 \<longrightarrow> fill_pass flagged ! i ! j = 1)
              \<and> (sum_list (map unat (flagged ! i)) < 2 \<longrightarrow> fill_pass flagged ! i = flagged ! i)))"
proof (intro conjI impI allI)
  assume m: "rasterise_polygon points sres buffer = Some (Inr result)"
  obtain res where r: "contour_pass points sres \<bar>buffer\<bar> = Some res"
    using contour_pass_halts by blast
  show "binary result"
  proof (cases res)
    case (Inl e)
    with r rasterise_polygon_cases(1) [of points sres buffer e] m show ?thesis by simp
  next
    case (Inr fl)
    with r have c: "contour_pass points sres \<bar>buffer\<bar> = Some (Inr fl)" by simp
    have b: "binary (fill_pass fl)" using contour_pass_binary [OF c] by (rule fill_pass_binary)
    from rasterise_polygon_cases(2) [OF c] m have
      "result = (if buffer = 0 then fill_pass fl
               else crop (nat \<bar>buffer\<bar>) (erode (fill_pass fl) (nat \<bar>buffer\<bar>)))"
      by simp
    with b crop_binary [OF erode_binary [OF b]] show ?thesis by simp
  qed
next
  assume c: "contour_pass points sres 0 = Some (Inr flagged)"
  then have "contour_pass points sres \<bar>0\<bar> = Some (Inr flagged)" by simp
  from rasterise_polygon_cases(2) [OF this]
  show "rasterise_polygon points sres 0 = Some (Inr (fill_pass flagged))" by simp
  show "length (fill_pass flagged) = length flagged" by (rule fill_pass_length)
  fix i assume i: "i < length flagged"
  show "length (fill_pass flagged ! i) = length (flagged ! i)"
    using i by (simp add: fill_pass_nth fill_row_length)
  {
    assume "sum_list (map unat (flagged ! i)) < 2"
    then show "fill_pass flagged ! i = flagged ! i" using i by (simp add: fill_pass_nth)
  }
  {
    fix j assume "j < length (flagged ! i)" "flagged ! i ! j = 1"
    then show "fill_pass flagged ! i ! j = 1" using i by (simp add: fill_pass_nth fill_row_keeps)
  }
qed

theorem fill_only_sets_witness:
  "binary [[1, 0, 0, 0, 0], [1, 1, 0, 0, 0], [1, 1, 1, 0, 0], [1, 1, 1, 1, 0], [1, 1, 1, 1, 1]]
   \<and> rasterise_polygon [(0, 0), (4, 0), (0, 4), (0, 0)] 1 0
       = Some (Inr (fill_pass
           [[1, 0, 0, 0, 0], [1, 1, 0, 0, 0], [1, 0, 1, 0, 0], [1, 0, 0, 1, 0], [1, 0, 0, 0, 1]]))
   \<and> fill_pass [[1, 0, 0, 0, 0], [1, 1, 0, 0, 0], [1, 0, 1, 0, 0], [1, 0, 0, 1, 0], [1, 0, 0, 0, 1]]
       ! 4 ! 4 = 1
   \<and> fill_pass [[1, 0, 0, 0, 0], [1, 1, 0, 0, 0], [1, 0, 1, 0, 0], [1, 0, 0, 1, 0], [1, 0, 0, 0, 1]]
       ! 0 = [1, 0, 0, 0, 0]"
proof -
  have r: "rasterise_polygon [(0, 0), (4, 0), (0, 4), (0, 0)] 1 0
      = Some (Inr [[1, 0, 0, 0, 0], [1, 1, 0, 0, 0], [1, 1, 1, 0, 0], [1, 1, 1, 1, 0],
                   [1, 1, 1, 1, 1]])"
    by (simp add: eval_defs upt_rec [of 1])
  have c: "contour_pass [(0, 0), (4, 0), (0, 4), (0, 0)] 1 0
      = Some (Inr [[1, 0, 0, 0, 0], [1, 1, 0, 0, 0], [1, 0, 1, 0, 0], [1, 0, 0, 1, 0],
                   [1, 0, 0, 0, 1]])"
    by (simp add: eval_defs upt_rec [of 1])
  let ?F = "[[1, 0, 0, 0, 0], [1, 1, 0, 0, 0], [1, 0, 1, 0, 0], [1, 0, 0, 1, 0],
             [1, 0, 0, 0, 1 :: 8 word]]"
  note t = fill_only_sets [of "[(0, 0), (4, 0), (0, 4), (0, 0)]" 1 0
        "[[1, 0, 0, 0, 0], [1, 1, 0, 0, 0], [1, 1, 1, 0, 0], [1, 1, 1, 1, 0], [1, 1, 1, 1, 1]]"
        ?F]
  from t r have b:
    "binary [[1, 0, 0, 0, 0], [1, 1, 0, 0, 0], [1, 1, 1, 0, 0], [1, 1, 1, 1, 0], [1, 1, 1, 1, 1]]"
    by blast
  from t c have f: "rasterise_polygon [(0, 0), (4, 0), (0, 4), (0, 0)] 1 0
      = Some (Inr (fill_pass ?F))"
    and rows: "\<forall>i < length ?F.
              length (fill_pass ?F ! i) = length (?F ! i)
              \<and> (\<forall>j < length (?F ! i). ?F ! i ! j = 1 \<longrightarrow> fill_pass ?F ! i ! j = 1)
              \<and> (sum_list (map unat (?F ! i)) < 2 \<longrightarrow> fill_pass ?F ! i = ?F ! i)"
    by blast+
  have "4 < length ?F" by simp
  with rows have "\<forall>j < length (?F ! 4). ?F ! 4 ! j = 1 \<longrightarrow> fill_pass ?F ! 4 ! j = 1" by blast
  moreover have "4 < length (?F ! 4)" "?F ! 4 ! 4 = 1" by simp_all
  ultimately have k: "fill_pass ?F ! 4 ! 4 = 1" by blast
  have "0 < length ?F" by simp
  with rows have "sum_list (map unat (?F ! 0)) < 2 \<longrightarrow> fill_pass ?F ! 0 = ?F ! 0" by blast
  moreover have "sum_list (map unat (?F ! 0)) < 2" by simp
  ultimately have "fill_pass ?F ! 0 = ?F ! 0" by blast
  then have z: "fill_pass ?F ! 0 = [1, 0, 0, 0, 0]" by simp
  from b f k z show ?thesis by blast
qed

text \<open>
  C9: the sign of \<open>buffer\<close> is dropped on entry: a buffer and its absolute value give
  the same result, whatever the points and the resolution.
\<close>

theorem rasterise_polygon_abs_buffer:
  "rasterise_polygon points sres buffer = rasterise_polygon points sres \<bar>buffer\<bar>"
  by (simp add: rasterise_polygon_def)

end
